theory Spec2Isabelle
  imports Main
begin

section \<open>Data shared by the accumulator and the upsert client\<close>

text \<open>
  A search hit is a Python dict. The program reads the keys \<open>link\<close>, \<open>title\<close>,
  \<open>snippet\<close> and \<open>priority\<close> only; a key that is absent is \<open>None\<close>.
\<close>

record item =
  link :: "string option"
  title :: "string option"
  snippet :: "string option"
  priority :: "int option"

section \<open>direct\_airtable\_integration.py: the batch upsert client\<close>

text \<open>The dict built by \<open>normalize_record\<close>, one field per key.\<close>

record upsert_record =
  r_title :: string
  r_link :: string
  r_snippet :: string
  r_source_domain :: string
  r_search_query :: string
  r_priority :: int
  r_scraped_at :: string
  r_status :: string

text \<open>
  \<open>self.table.all(formula=..., max_records=1)\<close> either raises or returns a list of
  records (here: their ids); the code only tests the list for emptiness.
\<close>

datatype lookup_result = LookupRaised | Returned "string list"

text \<open>
  The world outside \<open>save_results\<close>: the Airtable table, \<open>urlparse\<close> and the clock.
  The table is stateful, so each call takes the world \<open>'w\<close> and returns the next one.
  \<open>table_create\<close> returns \<open>False\<close> when \<open>self.table.create\<close> raises;
  \<open>urlparse_netloc\<close> returns \<open>None\<close> when \<open>urlparse\<close> raises.
\<close>

record 'w airtable =
  table_all :: "'w \<Rightarrow> string \<Rightarrow> lookup_result \<times> 'w"
  table_create :: "'w \<Rightarrow> upsert_record \<Rightarrow> bool \<times> 'w"
  urlparse_netloc :: "string \<Rightarrow> string option"
  utcnow_date :: "'w \<Rightarrow> string"

text \<open>
  The progress callback is code of the caller: a call returns normally (\<open>True\<close>) or
  raises an exception of class \<open>Exception\<close> (\<open>False\<close>), and it may keep state of its
  own, here part of the world. \<open>None\<close> is \<open>progress_callback=None\<close>.
\<close>

type_synonym 'w callback = "'w \<Rightarrow> nat \<Rightarrow> nat \<Rightarrow> nat \<Rightarrow> nat \<Rightarrow> bool \<times> 'w"

text \<open>
  What \<open>save_results\<close> does to the outside, in order: lookups and writes with their
  outcome, the rate-limit pause, and calls of the progress callback with its four
  arguments (processed, total, created, errors) and whether the call returned.
\<close>

datatype event =
    Lookup string lookup_result
  | Create upsert_record bool
  | Sleep
  | Progress nat nat nat nat bool

text \<open>The \<open>stats\<close> dict, together with the world and the trace of events.\<close>

record 'w upsert_state =
  processed :: nat
  created :: nat
  duplicates :: nat
  errors :: nat
  world :: 'w
  trace :: "event list"

text \<open>
  What a piece of \<open>save_results\<close> ends in: \<open>Inr\<close> when control goes on, \<open>Inl\<close> when
  an exception leaves \<open>save_results\<close>, each with the stats at that moment.
\<close>

type_synonym 'w upsert_outcome = "'w upsert_state + 'w upsert_state"

definition get_str :: "string option \<Rightarrow> string" where
  "get_str v = (case v of None \<Rightarrow> [] | Some s \<Rightarrow> s)"

definition extract_domain :: "'w airtable \<Rightarrow> string \<Rightarrow> string" where
  "extract_domain api url = (case urlparse_netloc api url of None \<Rightarrow> [] | Some d \<Rightarrow> d)"

definition normalize_record :: "'w airtable \<Rightarrow> 'w \<Rightarrow> item \<Rightarrow> string \<Rightarrow> int \<Rightarrow> upsert_record" where
  "normalize_record api w it search_query prio =
     \<lparr> r_title = get_str (title it),
       r_link = get_str (link it),
       r_snippet = get_str (snippet it),
       r_source_domain = extract_domain api (get_str (link it)),
       r_search_query = search_query,
       r_priority = prio,
       r_scraped_at = utcnow_date api w,
       r_status = ''Todo'' \<rparr>"

text \<open>
  \<open>if progress_callback: progress_callback(idx + 1, total, stats["created"], stats["errors"])\<close>,
  at lines 130-131, 154-155 and 160-161. The result says whether the call returned
  (\<open>True\<close>, also when there is no callback) or raised. \<open>time.sleep\<close> and \<open>print\<close> are
  taken to return normally.
\<close>

definition notify :: "'w callback option \<Rightarrow> nat \<Rightarrow> nat \<Rightarrow> 'w upsert_state \<Rightarrow> bool \<times> 'w upsert_state" where
  "notify cb idx total_n st =
     (case cb of
        None \<Rightarrow> (True, st)
      | Some f \<Rightarrow>
         (case f (world st) (idx + 1) total_n (created st) (errors st) of
            (returned, w') \<Rightarrow>
              (returned,
               st\<lparr>world := w',
                  trace := trace st
                    @ [Progress (idx + 1) total_n (created st) (errors st) returned]\<rparr>)))"

text \<open>
  The lookup of lines 124-127: \<open>True\<close> when it returned a non-empty list. A lookup
  that raises is caught by the inner \<open>except\<close> (line 133) and gives \<open>False\<close>.
\<close>

definition check_existing :: "'w airtable \<Rightarrow> bool \<Rightarrow> string \<Rightarrow> 'w upsert_state \<Rightarrow> bool \<times> 'w upsert_state" where
  "check_existing api check_duplicates lnk st =
     (if check_duplicates then
        (case table_all api (world st) lnk of
           (res, w') \<Rightarrow>
             ((case res of LookupRaised \<Rightarrow> False | Returned existing \<Rightarrow> existing \<noteq> []),
              st\<lparr>world := w', trace := trace st @ [Lookup lnk res]\<rparr>))
      else (False, st))"

text \<open>
  The outer handler, lines 157-174. The callback is called inside the handler: when it
  raises there, the exception leaves \<open>save_results\<close>.
\<close>

definition handler :: "'w callback option \<Rightarrow> nat \<Rightarrow> nat \<Rightarrow> 'w upsert_state \<Rightarrow> 'w upsert_outcome" where
  "handler cb total_n idx st =
     (case notify cb idx total_n (st\<lparr>errors := errors st + 1, processed := processed st + 1\<rparr>) of
        (returned, st') \<Rightarrow> if returned then Inr st' else Inl st')"

text \<open>
  Lines 139-155: normalise and write the record. The write and the callback that
  follows it are inside the outer \<open>try\<close>: when either raises, the handler runs.
\<close>

definition write_record ::
  "'w airtable \<Rightarrow> 'w callback option \<Rightarrow> nat \<Rightarrow> nat \<Rightarrow> item \<Rightarrow> string \<Rightarrow> int \<Rightarrow> 'w upsert_state
     \<Rightarrow> 'w upsert_outcome" where
  "write_record api cb total_n idx it query item_priority st =
     (let rec = normalize_record api (world st) it query item_priority in
      case table_create api (world st) rec of
        (ok, w') \<Rightarrow>
          let st1 = st\<lparr>world := w', trace := trace st @ [Create rec ok]\<rparr> in
          if ok then
            (case notify cb idx total_n
                    (st1\<lparr>created := created st1 + 1, processed := processed st1 + 1,
                         trace := trace st1 @ [Sleep]\<rparr>) of
               (returned, st2) \<Rightarrow> if returned then Inr st2 else handler cb total_n idx st2)
          else handler cb total_n idx st1)"

text \<open>
  The body of the \<open>for idx, (item, query, item_priority)\<close> loop, lines 114-174. The
  callback of the duplicate branch (line 131) is inside the inner \<open>try\<close>: when it
  raises, the inner \<open>except\<close> catches it, the \<open>continue\<close> is not reached and the
  record is written.
\<close>

definition process_item ::
  "'w airtable \<Rightarrow> bool \<Rightarrow> 'w callback option \<Rightarrow> nat \<Rightarrow> nat \<Rightarrow> item \<times> string \<times> int \<Rightarrow> 'w upsert_state
     \<Rightarrow> 'w upsert_outcome" where
  "process_item api check_duplicates cb total_n idx x st =
     (case x of (it, query, item_priority) \<Rightarrow>
        let lnk = get_str (link it) in
        if lnk = [] then
          Inr (st\<lparr>errors := errors st + 1, processed := processed st + 1\<rparr>)
        else
          (case check_existing api check_duplicates lnk st of
             (existing, st1) \<Rightarrow>
               if existing then
                 (case notify cb idx total_n
                         (st1\<lparr>duplicates := duplicates st1 + 1, processed := processed st1 + 1\<rparr>) of
                    (returned, st2) \<Rightarrow>
                      if returned then Inr st2
                      else write_record api cb total_n idx it query item_priority st2)
               else write_record api cb total_n idx it query item_priority st1))"

fun upsert_loop ::
  "'w airtable \<Rightarrow> bool \<Rightarrow> 'w callback option \<Rightarrow> nat \<Rightarrow> nat \<Rightarrow> (item \<times> string \<times> int) list
     \<Rightarrow> 'w upsert_state \<Rightarrow> 'w upsert_outcome" where
  "upsert_loop api check_duplicates cb total_n idx [] st = Inr st"
| "upsert_loop api check_duplicates cb total_n idx (x # xs) st =
     (case process_item api check_duplicates cb total_n idx x st of
        Inl st' \<Rightarrow> Inl st'
      | Inr st' \<Rightarrow> upsert_loop api check_duplicates cb total_n (Suc idx) xs st')"

text \<open>
  Lines 103-109: the worklist. \<open>results\<close> is a dict in insertion order, here an
  association list; \<open>search_queries\<close> is read with \<open>.get\<close> only, here a map.
\<close>

definition all_items ::
  "(string \<times> item list) list \<Rightarrow> (string \<rightharpoonup> string) \<Rightarrow> int \<Rightarrow> (item \<times> string \<times> int) list" where
  "all_items results search_queries dflt_priority =
     concat (map (\<lambda>(website, items).
        let query = (case search_queries website of
                       None \<Rightarrow> ''search on '' @ website | Some q \<Rightarrow> q)
        in map (\<lambda>it. (it, query, (case priority it of None \<Rightarrow> dflt_priority | Some p \<Rightarrow> p))) items)
       results)"

definition init_stats :: "'w \<Rightarrow> 'w upsert_state" where
  "init_stats w = \<lparr> processed = 0, created = 0, duplicates = 0, errors = 0, world = w, trace = [] \<rparr>"

definition save_results ::
  "'w airtable \<Rightarrow> 'w \<Rightarrow> (string \<times> item list) list \<Rightarrow> (string \<rightharpoonup> string) option \<Rightarrow> int \<Rightarrow> bool
     \<Rightarrow> 'w callback option \<Rightarrow> 'w upsert_outcome" where
  "save_results api w results search_queries dflt_priority check_duplicates cb =
     (let sq = (case search_queries of None \<Rightarrow> Map.empty | Some m \<Rightarrow> m);
          work = all_items results sq dflt_priority;
          total_n = length work
      in upsert_loop api check_duplicates cb total_n 0 work (init_stats w))"

text \<open>The stats when \<open>save_results\<close> ends, whether it returned them or raised.\<close>

definition final_stats :: "'w upsert_outcome \<Rightarrow> 'w upsert_state" where
  "final_stats r = (case r of Inl st \<Rightarrow> st | Inr st \<Rightarrow> st)"

section \<open>main.py: the result accumulator\<close>

text \<open>
  The four text inputs of one search tier (\<open>and1\<close>, \<open>exact1\<close>, \<open>any1\<close>, \<open>none1\<close> and
  so on). A tier is consulted by lines 203 and 231 when one of them is a non-empty string.
\<close>

record terms =
  and_t :: string
  exact_t :: string
  any_t :: string
  none_t :: string

definition active :: "terms \<Rightarrow> bool" where
  "active t = (and_t t \<noteq> [] \<or> exact_t t \<noteq> [] \<or> any_t t \<noteq> [] \<or> none_t t \<noteq> [])"

text \<open>
  The \<open>params\<close> dict of \<open>google_search\<close>; \<open>cred\<close> is the position of the
  \<open>(cx, key)\<close> pair in \<open>zip(GS_CX, GS_KEYS)\<close>.
\<close>

record params =
  q :: string
  exactTerms :: string
  orTerms :: string
  excludeTerms :: string
  num :: nat
  start :: nat
  siteSearch :: string
  cred :: nat

text \<open>
  \<open>requests.get(url, params).json()\<close> as seen by line 94: the call raises, or the
  reply is a rate-limit error, or it is any other reply, of which the accumulator reads
  \<open>.get('items', [])\<close>. The search service is stateful: \<open>'w\<close> is its state.
\<close>

datatype http_result = HttpRaised | RateLimitExceeded | Body "item list"

type_synonym 'w http = "'w \<Rightarrow> params \<Rightarrow> http_result \<times> 'w"

text \<open>What one call of \<open>google_search\<close> gives: an exception, \<open>None\<close>, or a reply.\<close>

datatype response = SearchRaised | NoResponse | Response "item list"

fun try_keys :: "'w http \<Rightarrow> nat list \<Rightarrow> params \<Rightarrow> 'w \<Rightarrow> response \<times> 'w" where
  "try_keys http [] ps w = (NoResponse, w)"
| "try_keys http (c # cs) ps w =
     (case http w (ps\<lparr>cred := c\<rparr>) of
        (HttpRaised, w') \<Rightarrow> (SearchRaised, w')
      | (RateLimitExceeded, w') \<Rightarrow> try_keys http cs ps w'
      | (Body items, w') \<Rightarrow> (Response items, w'))"

definition google_search :: "'w http \<Rightarrow> nat \<Rightarrow> string \<Rightarrow> terms \<Rightarrow> 'w \<Rightarrow> response \<times> 'w" where
  "google_search http page site t w =
     try_keys http [0, 1, 2]
       \<lparr> q = and_t t, exactTerms = exact_t t, orTerms = any_t t, excludeTerms = none_t t,
         num = 10, start = page * 10 + 1, siteSearch = site, cred = 0 \<rparr> w"

text \<open>
  The state of the accumulation for one website: \<open>st.session_state['results'][website]\<close>,
  the flag \<open>limitExceeded\<close>, the search service, and the log of the calls of
  \<open>google_search\<close> made so far (tier, page, and what came back).
\<close>

record 'w acc_state =
  site_results :: "item list"
  limitExceeded :: bool
  requests :: "(int \<times> nat \<times> response) list"
  net :: 'w

datatype error = KeyError | RequestError

text \<open>An exception ends the script; the session state keeps what was accumulated.\<close>

type_synonym 'w outcome = "(error \<times> 'w acc_state) + 'w acc_state"

definition tag :: "int \<Rightarrow> item \<Rightarrow> item" where
  "tag k it = it\<lparr>priority := Some k\<rparr>"

text \<open>\<open>[i['link'] for i in xs]\<close>: \<open>None\<close> when an item has no \<open>link\<close> key (KeyError).\<close>

fun links :: "item list \<Rightarrow> string list option" where
  "links [] = Some []"
| "links (i # xs) =
     (case link i of None \<Rightarrow> None
      | Some l \<Rightarrow> (case links xs of None \<Rightarrow> None | Some ls \<Rightarrow> Some (l # ls)))"

text \<open>
  Lines 225-226 and 253-254:
  \<open>[item for item in items if item['link'] not in [i['link'] for i in acc]]\<close>.
  The accumulated list is the one before the \<open>extend\<close>, for every item of the page.
\<close>

fun unseen :: "item list \<Rightarrow> item list \<Rightarrow> item list option" where
  "unseen acc [] = Some []"
| "unseen acc (it # its) =
     (case link it of None \<Rightarrow> None
      | Some l \<Rightarrow>
         (case links acc of None \<Rightarrow> None
          | Some ls \<Rightarrow>
             (case unseen acc its of None \<Rightarrow> None
              | Some rest \<Rightarrow> Some (if l \<in> set ls then rest else it # rest))))"

text \<open>
  What a page adds to the accumulated list: the first loop extends the list with the
  whole page (lines 195-196), the other two with the filtered page.
\<close>

definition new_items :: "bool \<Rightarrow> item list \<Rightarrow> item list \<Rightarrow> item list option" where
  "new_items dedup acc items = (if dedup then unseen acc items else Some items)"

text \<open>
  The page loop of one tier (lines 186-198, 216-229, 245-257). \<open>k\<close> is the priority the
  tier tags its items with; \<open>dedup\<close> is \<open>False\<close> for the first loop and \<open>True\<close>
  for the other two.
\<close>

fun page_loop ::
  "'w http \<Rightarrow> string \<Rightarrow> terms \<Rightarrow> int \<Rightarrow> bool \<Rightarrow> nat list \<Rightarrow> 'w acc_state \<Rightarrow> 'w outcome" where
  "page_loop http website t k dedup [] st = Inr st"
| "page_loop http website t k dedup (page # pages) st =
     (case google_search http page website t (net st) of
        (current_results, w') \<Rightarrow>
          let st1 = st\<lparr>net := w', requests := requests st @ [(k, page, current_results)]\<rparr> in
          (case current_results of
             SearchRaised \<Rightarrow> Inl (RequestError, st1)
           | NoResponse \<Rightarrow> Inr (st1\<lparr>limitExceeded := True\<rparr>)
           | Response raw \<Rightarrow>
               let items = map (tag k) raw in
               (case new_items dedup (site_results st1) items of
                  None \<Rightarrow> Inl (KeyError, st1)
                | Some new \<Rightarrow>
                    let st2 = st1\<lparr>site_results := site_results st1 @ new\<rparr> in
                    if length (site_results st2) \<ge> 40 \<or> length raw < 10 then Inr st2
                    else page_loop http website t k dedup pages st2)))"

definition budget :: "int \<Rightarrow> nat" where
  "budget k = (if k = 1 then 4 else if k = 2 then 8 else 10)"

definition init_acc :: "bool \<Rightarrow> 'w \<Rightarrow> 'w acc_state" where
  "init_acc lim w = \<lparr> site_results = [], limitExceeded = lim, requests = [], net = w \<rparr>"

definition tier1 :: "'w http \<Rightarrow> string \<Rightarrow> terms \<Rightarrow> 'w acc_state \<Rightarrow> 'w outcome" where
  "tier1 http website t1 st = page_loop http website t1 1 False [0..<budget 1] st"

text \<open>Lines 203-229 and 231-257: a later tier runs under its guard only.\<close>

definition later_tier :: "'w http \<Rightarrow> string \<Rightarrow> terms \<Rightarrow> int \<Rightarrow> 'w acc_state \<Rightarrow> 'w outcome" where
  "later_tier http website t k st =
     (if length (site_results st) < 40 \<and> active t
      then page_loop http website t k True [0..<budget k] st
      else Inr st)"

text \<open>
  The body of \<open>for website in websites\<close>, lines 173-258, for one non-empty website.
  The query label of lines 175-184, 205-215 and 233-244 does not influence the
  accumulation and is left out.
\<close>

definition search_site ::
  "'w http \<Rightarrow> string \<Rightarrow> terms \<Rightarrow> terms \<Rightarrow> terms \<Rightarrow> bool \<Rightarrow> 'w \<Rightarrow> 'w outcome" where
  "search_site http website t1 t2 t3 lim w =
     (case tier1 http website t1 (init_acc lim w) of
        Inl e \<Rightarrow> Inl e
      | Inr s1 \<Rightarrow>
         (case later_tier http website t2 2 s1 of
            Inl e \<Rightarrow> Inl e
          | Inr s2 \<Rightarrow>
             (case later_tier http website t3 3 s2 of
                Inl e \<Rightarrow> Inl e
              | Inr s3 \<Rightarrow> Inr (s3\<lparr>site_results := take 40 (site_results s3)\<rparr>))))"

text \<open>The state the script is left in, whether it completed or raised.\<close>

definition final_state :: "'w outcome \<Rightarrow> 'w acc_state" where
  "final_state r = (case r of Inl (e, st) \<Rightarrow> st | Inr st \<Rightarrow> st)"

text \<open>The pages requested for tier \<open>k\<close>, in the order of the requests.\<close>

definition pages_requested :: "int \<Rightarrow> (int \<times> nat \<times> response) list \<Rightarrow> nat list" where
  "pages_requested k log = map (\<lambda>e. fst (snd e)) (filter (\<lambda>e. fst e = k) log)"

section \<open>Predicates on traces and logs\<close>

fun is_lookup :: "event \<Rightarrow> bool" where
  "is_lookup (Lookup l res) = True"
| "is_lookup e = False"

fun is_progress :: "event \<Rightarrow> bool" where
  "is_progress (Progress a b c d returned) = True"
| "is_progress e = False"

text \<open>A call of the progress callback that raised.\<close>

fun progress_raised :: "event \<Rightarrow> bool" where
  "progress_raised (Progress a b c d returned) = (\<not> returned)"
| "progress_raised e = False"

text \<open>A write that raised.\<close>

fun is_failed_create :: "event \<Rightarrow> bool" where
  "is_failed_create (Create r ok) = (\<not> ok)"
| "is_failed_create e = False"

text \<open>A lookup that returned an existing record.\<close>

fun is_found_lookup :: "event \<Rightarrow> bool" where
  "is_found_lookup (Lookup l (Returned existing)) = (existing \<noteq> [])"
| "is_found_lookup e = False"

text \<open>Every lookup that raised is followed at once by a write of the same link.\<close>

fun writes_follow :: "event list \<Rightarrow> bool" where
  "writes_follow (Lookup l LookupRaised # es) =
     ((case es of Create r ok # _ \<Rightarrow> r_link r = l | _ \<Rightarrow> False) \<and> writes_follow es)"
| "writes_follow (e # es) = writes_follow es"
| "writes_follow [] = True"

text \<open>
  The requests of one tier: tagged \<open>k\<close>, for the first pages of \<open>pages\<close> in order, and
  every request but the last got a reply of at least 10 raw items.
\<close>

fun tier_block :: "int \<Rightarrow> nat list \<Rightarrow> (int \<times> nat \<times> response) list \<Rightarrow> bool" where
  "tier_block k pages [] = True"
| "tier_block k [] (e # es) = False"
| "tier_block k (p # ps) (e # es) =
     (fst e = k \<and> fst (snd e) = p \<and>
      (es = [] \<or>
       (case snd (snd e) of Response raw \<Rightarrow> 10 \<le> length raw | _ \<Rightarrow> False) \<and> tier_block k ps es))"

section \<open>Concrete services and inputs\<close>

text \<open>A hit with link \<open>l\<close> and nothing else, as the search service returns it.\<close>

definition hit :: "string \<Rightarrow> item" where
  "hit l = \<lparr> link = Some l, title = None, snippet = None, priority = None \<rparr>"

definition only_and :: "string \<Rightarrow> terms" where
  "only_and s = \<lparr> and_t = s, exact_t = [], any_t = [], none_t = [] \<rparr>"

text \<open>A search service that is never rate-limited and answers by query and offset.\<close>

definition demo_http :: "(string \<Rightarrow> nat \<Rightarrow> item list) \<Rightarrow> unit http" where
  "demo_http f = (\<lambda>w ps. (Body (f (q ps) (start ps)), w))"

definition ten_hits :: "item list" where
  "ten_hits = map (\<lambda>c. hit [c]) ''0123456789''"

definition no_pages :: "string \<Rightarrow> nat \<Rightarrow> item list" where
  "no_pages qs s = []"

text \<open>Query \<open>a\<close> has 23 results: pages of 10, 10 and 3. Other queries have none.\<close>

definition pages_10_10_3 :: "string \<Rightarrow> nat \<Rightarrow> item list" where
  "pages_10_10_3 qs s =
     (if qs = ''a'' then
        (if s = 1 \<or> s = 11 then ten_hits else if s = 21 then take 3 ten_hits else [])
      else [])"

text \<open>The second page repeats a link of the first.\<close>

definition pages_repeat :: "string \<Rightarrow> nat \<Rightarrow> item list" where
  "pages_repeat qs s = (if s = 1 then ten_hits else [hit ''0''])"

text \<open>Query \<open>a\<close> finds \<open>u\<close>; every other query finds \<open>u\<close> and \<open>v\<close>.\<close>

definition pages_overlap :: "string \<Rightarrow> nat \<Rightarrow> item list" where
  "pages_overlap qs s = (if qs = ''a'' then [hit ''u''] else [hit ''u'', hit ''v''])"

text \<open>A service that ignores \<open>num\<close> and returns 41 items on every page.\<close>

definition pages_41 :: "string \<Rightarrow> nat \<Rightarrow> item list" where
  "pages_41 qs s = replicate 41 (hit ''u'')"

text \<open>
  A table whose lookups all give \<open>res\<close> and whose writes succeed, except for the
  link \<open>http://bad\<close>.
\<close>

definition demo_api :: "lookup_result \<Rightarrow> 'w airtable" where
  "demo_api res =
     \<lparr> table_all = (\<lambda>w l. (res, w)),
       table_create = (\<lambda>w r. (r_link r \<noteq> ''http://bad'', w)),
       urlparse_netloc = (\<lambda>u. Some (drop 7 u)),
       utcnow_date = (\<lambda>w. ''2026-01-01'') \<rparr>"

text \<open>A callback that always returns.\<close>

definition quiet_callback :: "'w callback" where
  "quiet_callback = (\<lambda>w a b c d. (True, w))"

text \<open>
  A callback that raises on its first call and returns on every later one; the world
  counts its calls.
\<close>

definition raise_first :: "nat callback" where
  "raise_first = (\<lambda>w a b c d. (0 < w, Suc w))"

text \<open>A callback that raises on every call.\<close>

definition raise_always :: "'w callback" where
  "raise_always = (\<lambda>w a b c d. (False, w))"

text \<open>One site with three hits: a good link, an empty link, and a link whose write fails.\<close>

definition three_items :: "(string \<times> item list) list" where
  "three_items = [(''example.com'', [hit ''http://a'', hit [], hit ''http://bad''])]"

text \<open>One site with one hit.\<close>

definition one_item :: "(string \<times> item list) list" where
  "one_item = [(''example.com'', [hit ''http://a''])]"

section \<open>The batch upsert client: counters and trace\<close>

lemma notify_counters:
  "processed (snd (notify cb idx n st)) = processed st"
  "created (snd (notify cb idx n st)) = created st"
  "duplicates (snd (notify cb idx n st)) = duplicates st"
  "errors (snd (notify cb idx n st)) = errors st"
  by (simp_all add: notify_def case_prod_beta split: option.splits)

lemma notify_trace:
  "trace (snd (notify cb idx n st)) = trace st
   \<or> (\<exists>a b c d. trace (snd (notify cb idx n st))
         = trace st @ [Progress a b c d (fst (notify cb idx n st))])"
  by (simp add: notify_def case_prod_beta split: option.splits)

lemma notify_raised:
  "\<not> fst (notify cb idx n st) \<Longrightarrow>
     \<exists>a b c d. trace (snd (notify cb idx n st)) = trace st @ [Progress a b c d False]"
  by (auto simp: notify_def case_prod_beta split: option.splits)

text \<open>Events that are neither a lookup nor a write.\<close>

lemma pause_or_progress:
  assumes "\<forall>e\<in>set blk. e = Sleep \<or> is_progress e"
  shows "writes_follow blk" and "\<not> list_ex is_lookup blk"
    and "filter is_found_lookup blk = []" and "filter is_failed_create blk = []"
  using assms by (induction blk rule: writes_follow.induct) auto

lemma check_existing_fields:
  "processed (snd (check_existing api chk l st)) = processed st"
  "created (snd (check_existing api chk l st)) = created st"
  "duplicates (snd (check_existing api chk l st)) = duplicates st"
  "errors (snd (check_existing api chk l st)) = errors st"
  by (simp_all add: check_existing_def case_prod_beta)

lemma trace_check_existing:
  "trace (snd (check_existing api chk l st)) =
     trace st @ (if chk then [Lookup l (fst (table_all api (world st) l))] else [])"
  by (simp add: check_existing_def case_prod_beta)

lemma fst_check_existing:
  "fst (check_existing api chk l st) =
     (chk \<and> (case fst (table_all api (world st) l) of
                LookupRaised \<Rightarrow> False | Returned ex \<Rightarrow> ex \<noteq> []))"
  by (simp add: check_existing_def case_prod_beta)

text \<open>The handler counts one error and one processed item, and only its callback can raise.\<close>

lemma handler_step:
  "\<exists>blk. trace (final_stats (handler cb n idx st)) = trace st @ blk
     \<and> (\<forall>e\<in>set blk. e = Sleep \<or> is_progress e)
     \<and> created (final_stats (handler cb n idx st)) = created st
     \<and> duplicates (final_stats (handler cb n idx st)) = duplicates st
     \<and> errors (final_stats (handler cb n idx st)) = errors st + 1
     \<and> processed (final_stats (handler cb n idx st)) = processed st + 1
     \<and> (\<not> list_ex progress_raised blk \<longrightarrow> \<not> isl (handler cb n idx st))"
proof -
  let ?st1 = "st\<lparr>errors := errors st + 1, processed := processed st + 1\<rparr>"
  let ?nt = "notify cb idx n ?st1"
  have fin: "final_stats (handler cb n idx st) = snd ?nt"
    by (simp add: handler_def final_stats_def case_prod_beta)
  have isl: "isl (handler cb n idx st) = (\<not> fst ?nt)"
    by (simp add: handler_def case_prod_beta)
  have cnt: "created (snd ?nt) = created st" "duplicates (snd ?nt) = duplicates st"
      "errors (snd ?nt) = errors st + 1" "processed (snd ?nt) = processed st + 1"
    by (simp_all add: notify_counters)
  show ?thesis
  proof (cases "fst ?nt")
    case True
    from notify_trace[of cb idx n ?st1] obtain blk where
      "trace (snd ?nt) = trace st @ blk" "\<forall>e\<in>set blk. e = Sleep \<or> is_progress e"
      by (cases "trace (snd ?nt) = trace ?st1") auto
    with fin isl cnt True show ?thesis by auto
  next
    case False
    from notify_raised[OF False] obtain a b c d where
      "trace (snd ?nt) = trace st @ [Progress a b c d False]" by auto
    with fin cnt show ?thesis
      by (intro exI[of _ "[Progress a b c d False]"]) simp
  qed
qed

text \<open>
  A write adds its \<open>Create\<close> event and then pauses and callbacks only; it counts the
  item once when no callback raises.
\<close>

lemma write_record_step:
  "\<exists>rec ok blk. trace (final_stats (write_record api cb n idx it query prio st))
         = trace st @ Create rec ok # blk
     \<and> r_link rec = get_str (link it)
     \<and> (\<forall>e\<in>set blk. e = Sleep \<or> is_progress e)
     \<and> duplicates (final_stats (write_record api cb n idx it query prio st)) = duplicates st
     \<and> created (final_stats (write_record api cb n idx it query prio st))
         + errors (final_stats (write_record api cb n idx it query prio st)) + processed st
         = created st + errors st
           + processed (final_stats (write_record api cb n idx it query prio st))
     \<and> (\<not> list_ex progress_raised blk \<longrightarrow>
          \<not> isl (write_record api cb n idx it query prio st)
          \<and> errors (final_stats (write_record api cb n idx it query prio st))
              = errors st + (if ok then 0 else 1)
          \<and> processed (final_stats (write_record api cb n idx it query prio st))
              = processed st + 1)"
proof -
  let ?rec = "normalize_record api (world st) it query prio"
  obtain ok w' where tc: "table_create api (world st) ?rec = (ok, w')"
    by (cases "table_create api (world st) ?rec")
  let ?st1 = "st\<lparr>world := w', trace := trace st @ [Create ?rec ok]\<rparr>"
  have lnk: "r_link ?rec = get_str (link it)"
    by (simp add: normalize_record_def)
  show ?thesis
  proof (cases ok)
    case False
    with tc have eq: "write_record api cb n idx it query prio st = handler cb n idx ?st1"
      by (simp add: write_record_def Let_def)
    from handler_step[of cb n idx ?st1] obtain blk where blk:
      "trace (final_stats (handler cb n idx ?st1)) = trace ?st1 @ blk"
      "\<forall>e\<in>set blk. e = Sleep \<or> is_progress e"
      "created (final_stats (handler cb n idx ?st1)) = created ?st1"
      "duplicates (final_stats (handler cb n idx ?st1)) = duplicates ?st1"
      "errors (final_stats (handler cb n idx ?st1)) = errors ?st1 + 1"
      "processed (final_stats (handler cb n idx ?st1)) = processed ?st1 + 1"
      "\<not> list_ex progress_raised blk \<longrightarrow> \<not> isl (handler cb n idx ?st1)"
      by blast
    show ?thesis
      unfolding eq
      apply (rule exI[of _ ?rec], rule exI[of _ ok], rule exI[of _ blk])
      using blk lnk False by simp
  next
    case True
    let ?st2 = "?st1\<lparr>created := created ?st1 + 1, processed := processed ?st1 + 1,
                    trace := trace ?st1 @ [Sleep]\<rparr>"
    let ?nt = "notify cb idx n ?st2"
    have cnt: "created (snd ?nt) = created st + 1" "duplicates (snd ?nt) = duplicates st"
        "errors (snd ?nt) = errors st" "processed (snd ?nt) = processed st + 1"
      by (simp_all add: notify_counters)
    show ?thesis
    proof (cases "fst ?nt")
      case ret: True
      with tc True have eq: "write_record api cb n idx it query prio st = Inr (snd ?nt)"
        by (simp add: write_record_def Let_def case_prod_beta)
      from notify_trace[of cb idx n ?st2] obtain blk where
        blk: "trace (snd ?nt) = trace st @ Create ?rec ok # Sleep # blk"
             "\<forall>e\<in>set blk. e = Sleep \<or> is_progress e"
        by (cases "trace (snd ?nt) = trace ?st2") auto
      show ?thesis
        unfolding eq
        apply (rule exI[of _ ?rec], rule exI[of _ ok], rule exI[of _ "Sleep # blk"])
        using blk lnk True cnt by (simp add: final_stats_def)
    next
      case ret: False
      with tc True
      have eq: "write_record api cb n idx it query prio st = handler cb n idx (snd ?nt)"
        by (simp add: write_record_def Let_def case_prod_beta)
      from notify_raised[OF ret] obtain a b c d where
        nt: "trace (snd ?nt) = trace st @ Create ?rec ok # Sleep # [Progress a b c d False]"
        by auto
      from handler_step[of cb n idx "snd ?nt"] obtain blk where blk:
        "trace (final_stats (handler cb n idx (snd ?nt))) = trace (snd ?nt) @ blk"
        "\<forall>e\<in>set blk. e = Sleep \<or> is_progress e"
        "created (final_stats (handler cb n idx (snd ?nt))) = created (snd ?nt)"
        "duplicates (final_stats (handler cb n idx (snd ?nt))) = duplicates (snd ?nt)"
        "errors (final_stats (handler cb n idx (snd ?nt))) = errors (snd ?nt) + 1"
        "processed (final_stats (handler cb n idx (snd ?nt))) = processed (snd ?nt) + 1"
        by blast
      show ?thesis
        unfolding eq
        apply (rule exI[of _ ?rec], rule exI[of _ ok],
            rule exI[of _ "Sleep # Progress a b c d False # blk"])
        using blk nt lnk cnt by simp
    qed
  qed
qed

text \<open>What one item adds to the trace, and how it moves the counters.\<close>

lemma process_item_step:
  "\<exists>blk. trace (final_stats (process_item api chk cb n idx x st)) = trace st @ blk
     \<and> writes_follow blk \<and> (chk \<or> \<not> list_ex is_lookup blk)
     \<and> duplicates (final_stats (process_item api chk cb n idx x st))
         = duplicates st + length (filter is_found_lookup blk)
     \<and> created (final_stats (process_item api chk cb n idx x st))
         + duplicates (final_stats (process_item api chk cb n idx x st))
         + errors (final_stats (process_item api chk cb n idx x st)) + processed st
         = created st + duplicates st + errors st
           + processed (final_stats (process_item api chk cb n idx x st))
     \<and> (\<not> list_ex progress_raised blk \<longrightarrow>
          \<not> isl (process_item api chk cb n idx x st)
          \<and> errors (final_stats (process_item api chk cb n idx x st))
              = errors st + (if get_str (link (fst x)) = [] then 1 else 0)
                + length (filter is_failed_create blk)
          \<and> processed (final_stats (process_item api chk cb n idx x st)) = processed st + 1)"
proof -
  obtain it query prio where x: "x = (it, query, prio)" by (cases x)
  let ?lnk = "get_str (link it)"
  show ?thesis
  proof (cases "?lnk = []")
    case True
    then have "process_item api chk cb n idx x st
        = Inr (st\<lparr>errors := errors st + 1, processed := processed st + 1\<rparr>)"
      by (simp add: process_item_def x)
    then show ?thesis
      using True x by (intro exI[of _ "[]"]) (simp add: final_stats_def)
  next
    case False
    let ?ce = "check_existing api chk ?lnk st"
    let ?res = "fst (table_all api (world st) ?lnk)"
    let ?lk = "if chk then [Lookup ?lnk ?res] else []"
    have tr1: "trace (snd ?ce) = trace st @ ?lk"
      by (rule trace_check_existing)
    show ?thesis
    proof (cases "fst ?ce")
      case nodup: False
      have eq: "process_item api chk cb n idx x st
          = write_record api cb n idx it query prio (snd ?ce)"
        using False nodup by (simp add: process_item_def x case_prod_beta Let_def)
      from write_record_step[of api cb n idx it query prio "snd ?ce"]
      obtain rec ok blk where w:
        "trace (final_stats (write_record api cb n idx it query prio (snd ?ce)))
           = trace (snd ?ce) @ Create rec ok # blk"
        "r_link rec = ?lnk"
        "\<forall>e\<in>set blk. e = Sleep \<or> is_progress e"
        "duplicates (final_stats (write_record api cb n idx it query prio (snd ?ce)))
           = duplicates (snd ?ce)"
        "created (final_stats (write_record api cb n idx it query prio (snd ?ce)))
           + errors (final_stats (write_record api cb n idx it query prio (snd ?ce)))
           + processed (snd ?ce)
         = created (snd ?ce) + errors (snd ?ce)
           + processed (final_stats (write_record api cb n idx it query prio (snd ?ce)))"
        "\<not> list_ex progress_raised blk \<longrightarrow>
           \<not> isl (write_record api cb n idx it query prio (snd ?ce))
           \<and> errors (final_stats (write_record api cb n idx it query prio (snd ?ce)))
               = errors (snd ?ce) + (if ok then 0 else 1)
           \<and> processed (final_stats (write_record api cb n idx it query prio (snd ?ce)))
               = processed (snd ?ce) + 1"
        by blast
      note q = pause_or_progress[OF w(3)]
      have nofound: "filter is_found_lookup ?lk = []"
        using nodup by (auto simp: fst_check_existing split: lookup_result.splits)
      have wf: "writes_follow (?lk @ Create rec ok # blk)"
        using q(1) w(2) by (cases ?res) auto
      let ?w = "write_record api cb n idx it query prio (snd ?ce)"
      let ?blk = "?lk @ Create rec ok # blk"
      have A: "trace (final_stats ?w) = trace st @ ?blk"
        using w(1) tr1 by simp
      have B: "chk \<or> \<not> list_ex is_lookup ?blk"
        using q(2) by (cases chk) simp_all
      have C: "duplicates (final_stats ?w) = duplicates st + length (filter is_found_lookup ?blk)"
        using w(4) nofound q(3) by (simp add: check_existing_fields)
      have D: "created (final_stats ?w) + duplicates (final_stats ?w) + errors (final_stats ?w)
                 + processed st
               = created st + duplicates st + errors st + processed (final_stats ?w)"
        using w(4) w(5) by (simp add: check_existing_fields)
      have quiet: "list_ex progress_raised ?blk = list_ex progress_raised blk"
        by (cases chk) simp_all
      have fc: "length (filter is_failed_create ?blk) = (if ok then 0 else 1)"
        using q(4) by (cases chk) simp_all
      have E: "\<not> list_ex progress_raised ?blk \<longrightarrow>
                 \<not> isl ?w
                 \<and> errors (final_stats ?w)
                     = errors st + (if get_str (link (fst x)) = [] then 1 else 0)
                       + length (filter is_failed_create ?blk)
                 \<and> processed (final_stats ?w) = processed st + 1"
        unfolding quiet fc using w(6) False x by (simp add: check_existing_fields)
      show ?thesis
        unfolding eq using A wf B C D E by blast
    next
      case dup: True
      then have chk: chk and found: "is_found_lookup (Lookup ?lnk ?res)"
        by (auto simp: fst_check_existing split: lookup_result.splits)
      let ?st2 = "(snd ?ce)\<lparr>duplicates := duplicates (snd ?ce) + 1,
                              processed := processed (snd ?ce) + 1\<rparr>"
      let ?nt = "notify cb idx n ?st2"
      have cnt: "created (snd ?nt) = created st" "duplicates (snd ?nt) = duplicates st + 1"
          "errors (snd ?nt) = errors st" "processed (snd ?nt) = processed st + 1"
        by (simp_all add: notify_counters check_existing_fields)
      have raised_lookup: "?res \<noteq> LookupRaised"
        using found by auto
      show ?thesis
      proof (cases "fst ?nt")
        case ret: True
        have eq: "process_item api chk cb n idx x st = Inr (snd ?nt)"
          using False dup ret by (simp add: process_item_def x case_prod_beta Let_def)
        from notify_trace[of cb idx n ?st2] obtain blk where
          blk: "trace (snd ?nt) = trace st @ Lookup ?lnk ?res # blk"
               "\<forall>e\<in>set blk. e = Sleep \<or> is_progress e"
          using tr1 chk by (cases "trace (snd ?nt) = trace ?st2") auto
        note q = pause_or_progress[OF blk(2)]
        have wf: "writes_follow (Lookup ?lnk ?res # blk)"
          using q(1) raised_lookup by (cases ?res) auto
        let ?blk = "Lookup ?lnk ?res # blk"
        have A: "trace (snd ?nt) = trace st @ ?blk"
          using blk(1) .
        have C: "duplicates (snd ?nt) = duplicates st + length (filter is_found_lookup ?blk)"
          using cnt(2) found q(3) by simp
        have D: "created (snd ?nt) + duplicates (snd ?nt) + errors (snd ?nt) + processed st
                 = created st + duplicates st + errors st + processed (snd ?nt)"
          using cnt by simp
        have E: "errors (snd ?nt)
                   = errors st + (if get_str (link (fst x)) = [] then 1 else 0)
                     + length (filter is_failed_create ?blk)
                 \<and> processed (snd ?nt) = processed st + 1"
          using cnt q(4) False x by simp
        show ?thesis
          unfolding eq using A wf chk C D E by (intro exI[of _ ?blk]) (simp add: final_stats_def)
      next
        case ret: False
        have eq: "process_item api chk cb n idx x st
            = write_record api cb n idx it query prio (snd ?nt)"
          using False dup ret by (simp add: process_item_def x case_prod_beta Let_def)
        from notify_raised[OF ret] obtain a b c d where
          nt: "trace (snd ?nt) = trace st @ Lookup ?lnk ?res # [Progress a b c d False]"
          using tr1 chk by auto
        from write_record_step[of api cb n idx it query prio "snd ?nt"]
        obtain rec ok blk where w:
          "trace (final_stats (write_record api cb n idx it query prio (snd ?nt)))
             = trace (snd ?nt) @ Create rec ok # blk"
          "\<forall>e\<in>set blk. e = Sleep \<or> is_progress e"
          "duplicates (final_stats (write_record api cb n idx it query prio (snd ?nt)))
             = duplicates (snd ?nt)"
          "created (final_stats (write_record api cb n idx it query prio (snd ?nt)))
             + errors (final_stats (write_record api cb n idx it query prio (snd ?nt)))
             + processed (snd ?nt)
           = created (snd ?nt) + errors (snd ?nt)
             + processed (final_stats (write_record api cb n idx it query prio (snd ?nt)))"
          by blast
        note q = pause_or_progress[OF w(2)]
        have wf: "writes_follow (Lookup ?lnk ?res # Progress a b c d False # Create rec ok # blk)"
          using q(1) raised_lookup by (cases ?res) auto
        let ?w = "write_record api cb n idx it query prio (snd ?nt)"
        let ?blk = "Lookup ?lnk ?res # Progress a b c d False # Create rec ok # blk"
        have A: "trace (final_stats ?w) = trace st @ ?blk"
          using w(1) nt by simp
        have C: "duplicates (final_stats ?w) = duplicates st + length (filter is_found_lookup ?blk)"
          using w(3) cnt(2) found q(3) by simp
        have D: "created (final_stats ?w) + duplicates (final_stats ?w) + errors (final_stats ?w)
                   + processed st
                 = created st + duplicates st + errors st + processed (final_stats ?w)"
          using w(3) w(4) cnt by simp
        have E: "list_ex progress_raised ?blk"
          by simp
        show ?thesis
          unfolding eq using A wf chk C D E by blast
      qed
    qed
  qed
qed

lemma writes_follow_append:
  "writes_follow xs \<Longrightarrow> writes_follow ys \<Longrightarrow> writes_follow (xs @ ys)"
  by (induction xs rule: writes_follow.induct) (auto split: list.splits event.splits)


text \<open>The same for the whole worklist.\<close>

lemma upsert_loop_step:
  "\<exists>tr. trace (final_stats (upsert_loop api chk cb n idx xs st)) = trace st @ tr
     \<and> writes_follow tr \<and> (chk \<or> \<not> list_ex is_lookup tr)
     \<and> duplicates (final_stats (upsert_loop api chk cb n idx xs st))
         = duplicates st + length (filter is_found_lookup tr)
     \<and> created (final_stats (upsert_loop api chk cb n idx xs st))
         + duplicates (final_stats (upsert_loop api chk cb n idx xs st))
         + errors (final_stats (upsert_loop api chk cb n idx xs st)) + processed st
         = created st + duplicates st + errors st
           + processed (final_stats (upsert_loop api chk cb n idx xs st))
     \<and> (\<not> list_ex progress_raised tr \<longrightarrow>
          \<not> isl (upsert_loop api chk cb n idx xs st)
          \<and> errors (final_stats (upsert_loop api chk cb n idx xs st))
              = errors st + length (filter (\<lambda>x. get_str (link (fst x)) = []) xs)
                + length (filter is_failed_create tr)
          \<and> processed (final_stats (upsert_loop api chk cb n idx xs st))
              = processed st + length xs)"
proof (induction xs arbitrary: idx st)
  case Nil
  show ?case by (intro exI[of _ "[]"]) (simp add: final_stats_def)
next
  case (Cons x xs)
  let ?p = "process_item api chk cb n idx x st"
  let ?s1 = "final_stats ?p"
  obtain blk where blk: "trace ?s1 = trace st @ blk" "writes_follow blk"
      "chk \<or> \<not> list_ex is_lookup blk"
      "duplicates ?s1 = duplicates st + length (filter is_found_lookup blk)"
      "created ?s1 + duplicates ?s1 + errors ?s1 + processed st
         = created st + duplicates st + errors st + processed ?s1"
      "\<not> list_ex progress_raised blk \<longrightarrow> \<not> isl ?p
         \<and> errors ?s1 = errors st + (if get_str (link (fst x)) = [] then 1 else 0)
             + length (filter is_failed_create blk)
         \<and> processed ?s1 = processed st + 1"
    using process_item_step[of api chk cb n idx x st] by blast
  show ?case
  proof (cases ?p)
    case (Inl s)
    then have eq: "upsert_loop api chk cb n idx (x # xs) st = ?p"
      by simp
    have "list_ex progress_raised blk"
      using blk(6) Inl by auto
    then show ?thesis
      unfolding eq
      using blk by (intro exI[of _ blk]) simp
  next
    case (Inr s)
    then have s: "s = ?s1" by (simp add: final_stats_def)
    let ?l = "upsert_loop api chk cb n (Suc idx) xs ?s1"
    have eq: "upsert_loop api chk cb n idx (x # xs) st = ?l"
      using Inr by (simp add: final_stats_def)
    obtain tr where tr: "trace (final_stats ?l) = trace ?s1 @ tr" "writes_follow tr"
        "chk \<or> \<not> list_ex is_lookup tr"
        "duplicates (final_stats ?l) = duplicates ?s1 + length (filter is_found_lookup tr)"
        "created (final_stats ?l) + duplicates (final_stats ?l) + errors (final_stats ?l)
           + processed ?s1
         = created ?s1 + duplicates ?s1 + errors ?s1 + processed (final_stats ?l)"
        "\<not> list_ex progress_raised tr \<longrightarrow> \<not> isl ?l
           \<and> errors (final_stats ?l)
               = errors ?s1 + length (filter (\<lambda>x. get_str (link (fst x)) = []) xs)
                 + length (filter is_failed_create tr)
           \<and> processed (final_stats ?l) = processed ?s1 + length xs"
      using Cons.IH[of "Suc idx" ?s1] by blast
    show ?thesis
      unfolding eq
      apply (rule exI[of _ "blk @ tr"])
      using blk tr by (auto simp: writes_follow_append)
  qed
qed

lemma map_fst_all_items: "map fst (all_items results sq p) = concat (map snd results)"
  by (induction results) (auto simp: all_items_def Let_def comp_def)

lemma length_all_items: "length (all_items results sq p) = length (concat (map snd results))"
  using map_fst_all_items[of results sq p] by (metis length_map)

lemma save_results_unfold:
  "save_results api w results search_queries p chk cb =
     upsert_loop api chk cb
       (length (all_items results (case search_queries of None \<Rightarrow> Map.empty | Some m \<Rightarrow> m) p)) 0
       (all_items results (case search_queries of None \<Rightarrow> Map.empty | Some m \<Rightarrow> m) p)
       (init_stats w)"
  by (simp add: save_results_def Let_def)

lemma empty_link_count:
  "length (filter (\<lambda>x. get_str (link (fst x)) = []) (all_items results sq p))
   = length (filter (\<lambda>it. get_str (link it) = []) (concat (map snd results)))"
proof -
  have "filter (\<lambda>it. get_str (link it) = []) (map fst (all_items results sq p))
        = map fst (filter (\<lambda>x. get_str (link (fst x)) = []) (all_items results sq p))"
    by (simp add: filter_map comp_def)
  then show ?thesis
    by (metis length_map map_fst_all_items)
qed

text \<open>The trace and the counters of a whole call, from the empty stats.\<close>

lemma save_results_step:
  "\<exists>tr. trace (final_stats (save_results api w results search_queries p chk cb)) = tr
     \<and> writes_follow tr \<and> (chk \<or> \<not> list_ex is_lookup tr)
     \<and> duplicates (final_stats (save_results api w results search_queries p chk cb))
         = length (filter is_found_lookup tr)
     \<and> created (final_stats (save_results api w results search_queries p chk cb))
         + duplicates (final_stats (save_results api w results search_queries p chk cb))
         + errors (final_stats (save_results api w results search_queries p chk cb))
         = processed (final_stats (save_results api w results search_queries p chk cb))
     \<and> (\<not> list_ex progress_raised tr \<longrightarrow>
          \<not> isl (save_results api w results search_queries p chk cb)
          \<and> errors (final_stats (save_results api w results search_queries p chk cb))
              = length (filter (\<lambda>it. get_str (link it) = []) (concat (map snd results)))
                + length (filter is_failed_create tr)
          \<and> processed (final_stats (save_results api w results search_queries p chk cb))
              = length (concat (map snd results)))"
  unfolding save_results_unfold
  using upsert_loop_step[of api chk cb
      "length (all_items results (case search_queries of None \<Rightarrow> Map.empty | Some m \<Rightarrow> m) p)"
      0 "all_items results (case search_queries of None \<Rightarrow> Map.empty | Some m \<Rightarrow> m) p"
      "init_stats w"]
  by (auto simp: init_stats_def empty_link_count length_all_items)

section \<open>The batch upsert client: the claims\<close>

text \<open>
  C3 (the code departs from the claim). The claim: the progress callback is invoked once
  per input item, also for an item skipped for its empty link. The code: the empty-link
  branch (lines 116-119) counts the item and continues without calling the callback,
  while the duplicate, success and failure branches all call it. On three items whose
  second has an empty link, with a callback that always returns, the callback is called
  twice, with positions 1 and 3.
\<close>

theorem empty_link_skip_without_progress:
  "\<not> isl (save_results (demo_api (Returned [])) () three_items None 1 True (Some quiet_callback))
   \<and> filter is_progress (trace (final_stats (save_results (demo_api (Returned [])) ()
         three_items None 1 True (Some quiet_callback))))
     = [Progress 1 3 1 0 True, Progress 3 3 1 2 True]
   \<and> processed (final_stats (save_results (demo_api (Returned [])) () three_items None 1 True
         (Some quiet_callback))) = 3"
  by code_simp

text \<open>
  C7 (the code departs from the claim). The claim: on every execution path the
  \<open>processed\<close> counter returned by \<open>save_results\<close> equals the number of input items.
  The code calls the progress callback inside its \<open>try\<close> blocks (lines 131, 155), so an
  exception of the callback is handled as if the lookup or the write had failed, after
  the item was counted. With one input item and a callback that raises on its first
  call: after a successful write the handler counts the item again (processed 2,
  created 1, errors 1); after a duplicate was found the record is written all the same
  and counted again (processed 2, duplicates 1, created 1). A callback that raises in
  the handler as well (line 161) makes \<open>save_results\<close> raise and return no counters.
\<close>

theorem raising_callback_counts_twice:
  "length (concat (map snd one_item)) = 1
   \<and> \<not> isl (save_results (demo_api (Returned [])) 0 one_item None 1 False (Some raise_first))
   \<and> processed (final_stats (save_results (demo_api (Returned [])) 0 one_item None 1 False
         (Some raise_first))) = 2
   \<and> created (final_stats (save_results (demo_api (Returned [])) 0 one_item None 1 False
         (Some raise_first))) = 1
   \<and> errors (final_stats (save_results (demo_api (Returned [])) 0 one_item None 1 False
         (Some raise_first))) = 1
   \<and> \<not> isl (save_results (demo_api (Returned [''rec1''])) 0 one_item None 1 True (Some raise_first))
   \<and> processed (final_stats (save_results (demo_api (Returned [''rec1''])) 0 one_item None 1 True
         (Some raise_first))) = 2
   \<and> duplicates (final_stats (save_results (demo_api (Returned [''rec1''])) 0 one_item None 1 True
         (Some raise_first))) = 1
   \<and> created (final_stats (save_results (demo_api (Returned [''rec1''])) 0 one_item None 1 True
         (Some raise_first))) = 1
   \<and> isl (save_results (demo_api (Returned [])) () one_item None 1 False (Some raise_always))"
  by code_simp

text \<open>
  C8. With \<open>check_duplicates = False\<close> the trace of \<open>save_results\<close> holds no lookup,
  whether the call returns or raises: the store is only written to.
\<close>

theorem no_lookup_without_check:
  "filter is_lookup (trace (final_stats (save_results api w results search_queries p False cb))) = []"
  using save_results_step[of api w results search_queries p False cb]
  by (simp add: filter_empty_conv list_ex_iff)

theorem no_lookup_without_check_witness:
  "filter is_lookup (trace (final_stats (save_results (demo_api LookupRaised) () three_items None 1
       False (Some quiet_callback)))) = []
   \<and> length (trace (final_stats (save_results (demo_api LookupRaised) () three_items None 1
       False (Some quiet_callback)))) = 5"
proof -
  have "length (trace (final_stats (save_results (demo_api LookupRaised) () three_items None 1
       False (Some quiet_callback)))) = 5"
    by code_simp
  then show ?thesis
    using no_lookup_without_check[of "demo_api LookupRaised" "()" three_items None 1
        "Some quiet_callback"]
    by simp
qed





section \<open>The accumulator: what a tier adds to the result list\<close>

lemma links_Some: "links acc = Some ls \<Longrightarrow> map link acc = map Some ls"
  by (induction acc arbitrary: ls) (auto split: option.splits)

lemma unseen_Some:
  "unseen acc items = Some new \<Longrightarrow>
     set new \<subseteq> set items \<and> (\<forall>x\<in>set new. link x \<notin> link ` set acc)"
proof (induction items arbitrary: new)
  case Nil
  then show ?case by simp
next
  case (Cons it its)
  from Cons.prems obtain l ls rest where
    l: "link it = Some l" and ls: "links acc = Some ls" and rest: "unseen acc its = Some rest"
    and new: "new = (if l \<in> set ls then rest else it # rest)"
    by (auto split: option.splits)
  have "link ` set acc = Some ` set ls"
    using links_Some[OF ls] by (metis image_set)
  then have "l \<notin> set ls \<Longrightarrow> link it \<notin> link ` set acc"
    using l by auto
  with Cons.IH[OF rest] new show ?case by auto
qed

text \<open>
  A tier appends to the list; what it appends carries the tier's priority and, in a
  deduplicating tier, no link that was in the list when the tier started.
\<close>

lemma page_loop_results:
  "page_loop http website t k dedup pages st = Inr st' \<Longrightarrow>
     \<exists>ext. site_results st' = site_results st @ ext
       \<and> (\<forall>x\<in>set ext. priority x = Some k)
       \<and> (dedup \<longrightarrow> (\<forall>x\<in>set ext. link x \<notin> link ` set (site_results st)))"
proof (induction pages arbitrary: st)
  case Nil
  then show ?case by simp
next
  case (Cons page pages)
  obtain r w' where gs: "google_search http page website t (net st) = (r, w')"
    by (cases "google_search http page website t (net st)")
  let ?st1 = "st\<lparr>net := w', requests := requests st @ [(k, page, r)]\<rparr>"
  show ?case
  proof (cases r)
    case SearchRaised
    with Cons.prems gs show ?thesis by simp
  next
    case NoResponse
    with Cons.prems gs show ?thesis by auto
  next
    case (Response raw)
    let ?items = "map (tag k) raw"
    from Cons.prems gs Response obtain new where
      new: "new_items dedup (site_results st) ?items = Some new"
      by (auto simp: Let_def split: option.splits if_splits)
    have sub: "set new \<subseteq> set ?items"
      using new unseen_Some[of "site_results st" ?items new]
      by (cases dedup) (auto simp: new_items_def)
    have fresh: "dedup \<Longrightarrow> \<forall>x\<in>set new. link x \<notin> link ` set (site_results st)"
      using new unseen_Some[of "site_results st" ?items new] by (simp add: new_items_def)
    have prio: "\<forall>x\<in>set new. priority x = Some k"
      using sub by (auto simp: tag_def)
    let ?st2 = "?st1\<lparr>site_results := site_results st @ new\<rparr>"
    show ?thesis
    proof (cases "length (site_results st @ new) \<ge> 40 \<or> length raw < 10")
      case True
      with Cons.prems gs Response new have "st' = ?st2"
        by (auto simp: Let_def split: if_splits)
      with prio fresh show ?thesis by auto
    next
      case False
      with Cons.prems gs Response new
      have "page_loop http website t k dedup pages ?st2 = Inr st'"
        by (auto simp: Let_def split: if_splits)
      from Cons.IH[OF this] obtain ext where
        ext: "site_results st' = site_results ?st2 @ ext"
          "\<forall>x\<in>set ext. priority x = Some k"
          "dedup \<longrightarrow> (\<forall>x\<in>set ext. link x \<notin> link ` set (site_results ?st2))"
        by blast
      show ?thesis
        apply (rule exI[of _ "new @ ext"])
        using ext prio fresh by auto
    qed
  qed
qed

lemma later_tier_results:
  assumes "later_tier http website t k st = Inr st'"
  shows "\<exists>ext. site_results st' = site_results st @ ext
       \<and> (\<forall>x\<in>set ext. priority x = Some k \<and> link x \<notin> link ` set (site_results st))"
proof (cases "length (site_results st) < 40 \<and> active t")
  case True
  with assms have "page_loop http website t k True [0..<budget k] st = Inr st'"
    by (simp add: later_tier_def)
  from page_loop_results[OF this] show ?thesis by auto
next
  case False
  with assms have "st' = st" by (auto simp: later_tier_def)
  then show ?thesis by simp
qed

lemma tier1_results:
  assumes "tier1 http website t1 (init_acc lim w) = Inr s1"
  shows "\<forall>x\<in>set (site_results s1). priority x = Some 1"
  using page_loop_results[OF assms[unfolded tier1_def]] by (auto simp: init_acc_def)

lemma search_site_Inr:
  assumes "search_site http website t1 t2 t3 lim w = Inr st"
  obtains s1 s2 s3 where "tier1 http website t1 (init_acc lim w) = Inr s1"
    and "later_tier http website t2 2 s1 = Inr s2"
    and "later_tier http website t3 3 s2 = Inr s3"
    and "st = s3\<lparr>site_results := take 40 (site_results s3)\<rparr>"
  using assms by (auto simp: search_site_def split: sum.splits)

lemma not_isl_final: "\<not> isl r \<Longrightarrow> r = Inr (final_state r)"
  by (cases r) (simp_all add: final_state_def)

section \<open>The accumulator: the log of requests\<close>

lemma page_loop_log:
  "\<exists>blk. requests (final_state (page_loop http website t k dedup pages st)) = requests st @ blk
      \<and> tier_block k pages blk \<and> (pages \<noteq> [] \<longrightarrow> blk \<noteq> [])"
proof (induction pages arbitrary: st)
  case Nil
  show ?case by (simp add: final_state_def)
next
  case (Cons page pages)
  obtain r w' where gs: "google_search http page website t (net st) = (r, w')"
    by (cases "google_search http page website t (net st)")
  let ?st1 = "st\<lparr>net := w', requests := requests st @ [(k, page, r)]\<rparr>"
  show ?case
  proof (cases r)
    case SearchRaised
    with gs show ?thesis
      by (intro exI[of _ "[(k, page, r)]"]) (simp add: final_state_def)
  next
    case NoResponse
    with gs show ?thesis
      by (intro exI[of _ "[(k, page, r)]"]) (simp add: final_state_def)
  next
    case (Response raw)
    let ?items = "map (tag k) raw"
    show ?thesis
    proof (cases "new_items dedup (site_results st) ?items")
      case None
      with gs Response
      have "page_loop http website t k dedup (page # pages) st = Inl (KeyError, ?st1)"
        by (simp add: Let_def)
      then show ?thesis
        by (intro exI[of _ "[(k, page, r)]"]) (simp add: final_state_def)
    next
      case (Some new)
      let ?st2 = "?st1\<lparr>site_results := site_results st @ new\<rparr>"
      show ?thesis
      proof (cases "length (site_results st @ new) \<ge> 40 \<or> length raw < 10")
        case True
        with gs Response Some
        have "page_loop http website t k dedup (page # pages) st = Inr ?st2"
          by (simp add: Let_def)
        then show ?thesis
          by (intro exI[of _ "[(k, page, r)]"]) (simp add: final_state_def)
      next
        case False
        with gs Response Some
        have eq: "page_loop http website t k dedup (page # pages) st
             = page_loop http website t k dedup pages ?st2"
          by (simp add: Let_def)
        from Cons.IH[of ?st2] obtain blk where
          blk: "requests (final_state (page_loop http website t k dedup pages ?st2))
                  = requests ?st2 @ blk"
               "tier_block k pages blk" by blast
        show ?thesis
          apply (rule exI[of _ "(k, page, r) # blk"])
          using blk eq False Response by simp
      qed
    qed
  qed
qed

lemma tier_block_tags: "tier_block k pages blk \<Longrightarrow> e \<in> set blk \<Longrightarrow> fst e = k"
  by (induction k pages blk rule: tier_block.induct) auto

lemma tier_block_pages:
  "tier_block k pages blk \<Longrightarrow> map (\<lambda>e. fst (snd e)) blk = take (length blk) pages"
  by (induction k pages blk rule: tier_block.induct) auto

lemma tier_block_length: "tier_block k pages blk \<Longrightarrow> length blk \<le> length pages"
  by (induction k pages blk rule: tier_block.induct) auto

lemma tier_block_short_last:
  "tier_block k pages (pre @ (k', p, Response raw) # post) \<Longrightarrow> length raw < 10 \<Longrightarrow> post = []"
proof (induction k pages pre arbitrary: rule: tier_block.induct)
  case (1 k pages)
  then show ?case by (cases pages) auto
next
  case (2 k e es)
  then show ?case by simp
next
  case (3 k p ps e es)
  then show ?case by auto
qed

lemma pages_requested_append:
  "pages_requested k (xs @ ys) = pages_requested k xs @ pages_requested k ys"
  by (simp add: pages_requested_def)

lemma pages_requested_other:
  "\<forall>e\<in>set blk. fst e \<noteq> k \<Longrightarrow> pages_requested k blk = []"
  by (simp add: pages_requested_def)

lemma tier_block_other:
  "tier_block j pages blk \<Longrightarrow> j \<noteq> k \<Longrightarrow> pages_requested k blk = []"
  by (rule pages_requested_other) (auto dest: tier_block_tags)

lemma pages_requested_block:
  assumes "tier_block k pages blk"
  shows "pages_requested k blk = take (length blk) pages"
proof -
  have "filter (\<lambda>e. fst e = k) blk = blk"
    using tier_block_tags[OF assms] by (simp add: filter_id_conv)
  then show ?thesis
    using tier_block_pages[OF assms] by (simp add: pages_requested_def)
qed

lemma block_pages_upt:
  assumes "tier_block k [0..<n] blk"
  shows "pages_requested k blk = [0..<length blk] \<and> length blk \<le> n"
  using pages_requested_block[OF assms] tier_block_length[OF assms]
  by simp

lemma later_tier_log:
  "\<exists>blk. requests (final_state (later_tier http website t k st)) = requests st @ blk
      \<and> tier_block k [0..<budget k] blk \<and> (\<not> active t \<longrightarrow> blk = [])"
proof (cases "length (site_results st) < 40 \<and> active t")
  case True
  then show ?thesis
    using page_loop_log[of http website t k True "[0..<budget k]" st]
    by (auto simp: later_tier_def)
next
  case False
  then show ?thesis
    by (intro exI[of _ "[]"]) (auto simp: later_tier_def final_state_def)
qed

text \<open>The log of a run is one block per tier, in the order of the tiers.\<close>

lemma search_site_log:
  "\<exists>b1 b2 b3. requests (final_state (search_site http website t1 t2 t3 lim w)) = b1 @ b2 @ b3
     \<and> tier_block 1 [0..<budget 1] b1 \<and> tier_block 2 [0..<budget 2] b2
     \<and> tier_block 3 [0..<budget 3] b3 \<and> b1 \<noteq> []
     \<and> (\<not> active t2 \<longrightarrow> b2 = []) \<and> (\<not> active t3 \<longrightarrow> b3 = [])"
proof -
  let ?r1 = "tier1 http website t1 (init_acc lim w)"
  obtain b1 where b1: "requests (final_state ?r1) = b1" "tier_block 1 [0..<budget 1] b1"
      "b1 \<noteq> []"
    using page_loop_log[of http website t1 1 False "[0..<budget 1]" "init_acc lim w"]
    by (auto simp: tier1_def init_acc_def budget_def)
  show ?thesis
  proof (cases ?r1)
    case (Inl e)
    then have "final_state (search_site http website t1 t2 t3 lim w) = final_state ?r1"
      by (simp add: search_site_def)
    with b1 show ?thesis
      by (intro exI[of _ b1] exI[of _ "[]"]) simp
  next
    case (Inr s1)
    let ?r2 = "later_tier http website t2 2 s1"
    from Inr b1 have s1: "requests s1 = b1" by (simp add: final_state_def)
    obtain b2 where b2: "requests (final_state ?r2) = b1 @ b2" "tier_block 2 [0..<budget 2] b2"
        "\<not> active t2 \<longrightarrow> b2 = []"
      using later_tier_log[of http website t2 2 s1] s1 by auto
    show ?thesis
    proof (cases ?r2)
      case (Inl e)
      with Inr have "final_state (search_site http website t1 t2 t3 lim w) = final_state ?r2"
        by (simp add: search_site_def)
      with b1 b2 show ?thesis
        by (intro exI[of _ b1] exI[of _ b2] exI[of _ "[]"]) simp
    next
      case s2: (Inr s2)
      let ?r3 = "later_tier http website t3 3 s2"
      from s2 b2 have rs2: "requests s2 = b1 @ b2" by (simp add: final_state_def)
      obtain b3 where b3: "requests (final_state ?r3) = (b1 @ b2) @ b3"
          "tier_block 3 [0..<budget 3] b3" "\<not> active t3 \<longrightarrow> b3 = []"
        using later_tier_log[of http website t3 3 s2] rs2 by auto
      have "requests (final_state (search_site http website t1 t2 t3 lim w))
            = requests (final_state ?r3)"
        using Inr s2 by (cases ?r3) (auto simp: search_site_def final_state_def)
      with b1 b2 b3 show ?thesis
        by (intro exI[of _ b1] exI[of _ b2] exI[of _ b3]) simp
    qed
  qed
qed

lemma short_in_append:
  assumes dec: "xs @ ys = pre @ (k, p, Response raw) # post" and short: "length raw < 10"
    and xs: "tier_block kx px xs"
    and ys_notk: "(k, p, Response raw) \<in> set xs \<Longrightarrow> pages_requested k ys = []"
    and ys: "\<And>pre' post'. ys = pre' @ (k, p, Response raw) # post' \<Longrightarrow> post = post'
               \<Longrightarrow> pages_requested k post' = []"
  shows "pages_requested k post = []"
proof -
  from dec consider
    (left) us where "xs = pre @ (k, p, Response raw) # us" "post = us @ ys"
  | (right) us where "pre = xs @ us" "ys = us @ (k, p, Response raw) # post"
    by (auto simp: append_eq_append_conv2 append_eq_Cons_conv Cons_eq_append_conv)
  then show ?thesis
  proof cases
    case left
    with xs short have "us = []" using tier_block_short_last by blast
    with left ys_notk show ?thesis by simp
  next
    case right
    with ys show ?thesis by blast
  qed
qed

section \<open>The accumulator: the claims\<close>

text \<open>
  C1 (the code departs from the claim). The claim: after accumulation the links in a
  site's result list are pairwise distinct, whatever pages the search service returns.
  The code: the second and third loops filter a page against the accumulated list
  (lines 225-226, 253-254), the first loop extends the list with the whole page
  (lines 195-196). When page 1 of tier 1 repeats a link of page 0, the run completes
  and the link stands twice in the result.
\<close>

theorem tier1_repeated_link_retained:
  "\<not> isl (search_site (demo_http pages_repeat) ''example.com'' (only_and ''a'') (only_and [])
            (only_and []) False ())
   \<and> length (site_results (final_state (search_site (demo_http pages_repeat) ''example.com''
            (only_and ''a'') (only_and []) (only_and []) False ()))) = 11
   \<and> \<not> distinct (map link (site_results (final_state (search_site (demo_http pages_repeat)
            ''example.com'' (only_and ''a'') (only_and []) (only_and []) False ()))))"
  by code_simp

text \<open>
  C2 as stated fails for tier 1: with all four fields of every tier empty, page 0 of
  tier 1 is still requested.
\<close>

theorem tier1_queried_without_terms:
  "\<not> active (only_and [])
   \<and> pages_requested 1 (requests (final_state (search_site (demo_http no_pages) ''example.com''
        (only_and []) (only_and []) (only_and []) False ()))) = [0]"
  by code_simp

text \<open>
  C2 (amended). For tier 2 and for tier 3: when the tier's four term fields are all
  empty, no request is issued for that tier, whatever the earlier tiers left under the
  cap, and also when the run ends in an exception. Tier 1 has no such guard: its first
  page is always requested.
\<close>

theorem inactive_later_tier_not_queried:
  assumes st: "st = final_state (search_site http website t1 t2 t3 lim w)"
  shows "(\<not> active t2 \<longrightarrow> pages_requested 2 (requests st) = [])
       \<and> (\<not> active t3 \<longrightarrow> pages_requested 3 (requests st) = [])
       \<and> pages_requested 1 (requests st) \<noteq> []"
proof -
  obtain b1 b2 b3 where log: "requests st = b1 @ b2 @ b3"
    and b1: "tier_block 1 [0..<budget 1] b1" and b2: "tier_block 2 [0..<budget 2] b2"
    and b3: "tier_block 3 [0..<budget 3] b3" and ne: "b1 \<noteq> []"
    and off: "\<not> active t2 \<longrightarrow> b2 = []" "\<not> active t3 \<longrightarrow> b3 = []"
    using search_site_log[of http website t1 t2 t3 lim w] st by blast
  have "pages_requested 1 b1 \<noteq> []"
    using block_pages_upt[OF b1] ne by simp
  then show ?thesis
    using log off tier_block_other[OF b1, of 2] tier_block_other[OF b1, of 3]
      tier_block_other[OF b2, of 3] tier_block_other[OF b3, of 2]
    by (auto simp: pages_requested_append pages_requested_def)
qed

theorem inactive_later_tier_not_queried_witness:
  "\<not> active (only_and [])
   \<and> length (site_results (final_state (search_site (demo_http pages_10_10_3) ''example.com''
        (only_and ''a'') (only_and []) (only_and []) False ()))) = 23
   \<and> pages_requested 2 (requests (final_state (search_site (demo_http pages_10_10_3)
        ''example.com'' (only_and ''a'') (only_and []) (only_and []) False ()))) = []
   \<and> pages_requested 3 (requests (final_state (search_site (demo_http pages_10_10_3)
        ''example.com'' (only_and ''a'') (only_and []) (only_and []) False ()))) = []"
proof -
  have off: "\<not> active (only_and [])"
    by code_simp
  have len: "length (site_results (final_state (search_site (demo_http pages_10_10_3)
        ''example.com'' (only_and ''a'') (only_and []) (only_and []) False ()))) = 23"
    by code_simp
  from inactive_later_tier_not_queried[OF refl, where http = "demo_http pages_10_10_3"
      and website = "''example.com''" and ?t1.0 = "only_and ''a''" and ?t2.0 = "only_and []"
      and ?t3.0 = "only_and []" and lim = False and w = "()"] off len
  show ?thesis by blast
qed

text \<open>
  C4. When a link was accumulated by tier 1, every item of the final result that has
  this link carries priority 1 and is an item that tier 1 accumulated: what tier 2 or
  tier 3 returns under that link is dropped, and nothing is tagged again.
\<close>

theorem first_tier_wins:
  assumes t1: "tier1 http website t1 (init_acc lim w) = Inr s1"
    and run: "search_site http website t1 t2 t3 lim w = Inr st"
    and it1: "it1 \<in> set (site_results s1)"
    and it: "it \<in> set (site_results st)"
    and same: "link it = link it1"
  shows "priority it = Some 1 \<and> it \<in> set (site_results s1)"
proof -
  from run t1 obtain s2 s3 where
    s2: "later_tier http website t2 2 s1 = Inr s2" and
    s3: "later_tier http website t3 3 s2 = Inr s3" and
    st: "st = s3\<lparr>site_results := take 40 (site_results s3)\<rparr>"
    by (auto elim!: search_site_Inr)
  from later_tier_results[OF s2] obtain e2 where
    e2: "site_results s2 = site_results s1 @ e2"
        "\<forall>x\<in>set e2. link x \<notin> link ` set (site_results s1)" by blast
  from later_tier_results[OF s3] obtain e3 where
    e3: "site_results s3 = site_results s2 @ e3"
        "\<forall>x\<in>set e3. link x \<notin> link ` set (site_results s2)" by blast
  have "it \<in> set (site_results s3)"
    using it st by (auto dest: in_set_takeD)
  then have "it \<in> set (site_results s1) \<or> it \<in> set e2 \<or> it \<in> set e3"
    using e2(1) e3(1) by auto
  moreover have "link it \<in> link ` set (site_results s1)"
    using it1 same by auto
  ultimately have "it \<in> set (site_results s1)"
    using e2 e3(2) by auto
  with tier1_results[OF t1] show ?thesis by simp
qed

theorem first_tier_wins_witness:
  "\<not> isl (tier1 (demo_http pages_overlap) ''example.com'' (only_and ''a'') (init_acc False ()))
   \<and> \<not> isl (search_site (demo_http pages_overlap) ''example.com'' (only_and ''a'')
             (only_and ''b'') (only_and []) False ())
   \<and> site_results (final_state (search_site (demo_http pages_overlap) ''example.com''
             (only_and ''a'') (only_and ''b'') (only_and []) False ()))
       = [tag 1 (hit ''u''), tag 2 (hit ''v'')]
   \<and> tag 1 (hit ''u'') \<in> set (site_results (final_state
         (tier1 (demo_http pages_overlap) ''example.com'' (only_and ''a'') (init_acc False ()))))
   \<and> priority (tag 1 (hit ''u'')) = Some 1"
proof -
  let ?t1 = "tier1 (demo_http pages_overlap) ''example.com'' (only_and ''a'') (init_acc False ())"
  let ?run = "search_site (demo_http pages_overlap) ''example.com'' (only_and ''a'')
                (only_and ''b'') (only_and []) False ()"
  have a: "\<not> isl ?t1" and b: "\<not> isl ?run"
    by code_simp+
  have res: "site_results (final_state ?run) = [tag 1 (hit ''u''), tag 2 (hit ''v'')]"
    by code_simp
  have in1: "tag 1 (hit ''u'') \<in> set (site_results (final_state ?t1))"
    by code_simp
  have in2: "tag 1 (hit ''u'') \<in> set (site_results (final_state ?run))"
    using res by simp
  from first_tier_wins[OF not_isl_final[OF a] not_isl_final[OF b] in1 in2 refl]
  have "priority (tag 1 (hit ''u'')) = Some 1" by blast
  with a b res in1 show ?thesis by blast
qed

text \<open>
  C5. For every site, the result list of a run that completes holds at most 40 items,
  however many items the search service returned.
\<close>

theorem result_capped:
  assumes "search_site http website t1 t2 t3 lim w = Inr st"
  shows "length (site_results st) \<le> 40"
  using assms by (auto elim!: search_site_Inr)

theorem result_capped_witness:
  "\<not> isl (search_site (demo_http pages_41) ''example.com'' (only_and ''a'') (only_and [])
            (only_and []) False ())
   \<and> length (site_results (final_state (tier1 (demo_http pages_41) ''example.com''
            (only_and ''a'') (init_acc False ())))) = 41
   \<and> length (site_results (final_state (search_site (demo_http pages_41) ''example.com''
            (only_and ''a'') (only_and []) (only_and []) False ()))) \<le> 40"
proof -
  let ?run = "search_site (demo_http pages_41) ''example.com'' (only_and ''a'') (only_and [])
                (only_and []) False ()"
  have a: "\<not> isl ?run"
    by code_simp
  have b: "length (site_results (final_state (tier1 (demo_http pages_41) ''example.com''
            (only_and ''a'') (init_acc False ())))) = 41"
    by code_simp
  from result_capped[OF not_isl_final[OF a]] a b show ?thesis by blast
qed

text \<open>
  C6. For each tier \<open>k\<close>, the pages requested are pages 0, 1, ... in order and at most
  the tier's budget of them (4, 8 and 10 for tiers 1, 2 and 3); and after a request of
  the tier that returned fewer than 10 raw items, no further page of the tier is
  requested. When the pages of tier 1 hold 10, 10 and 3 items, exactly pages 0, 1, 2
  are requested.
\<close>

theorem page_budget_and_short_page_stop:
  fixes k :: int
  assumes st: "st = final_state (search_site http website t1 t2 t3 lim w)"
  shows "(\<exists>n\<le>budget k. pages_requested k (requests st) = [0..<n])
       \<and> (\<forall>pre p raw post. requests st = pre @ (k, p, Response raw) # post \<and> length raw < 10
             \<longrightarrow> pages_requested k post = [])"
proof -
  obtain b1 b2 b3 where log: "requests st = b1 @ b2 @ b3"
    and b1: "tier_block 1 [0..<budget 1] b1" and b2: "tier_block 2 [0..<budget 2] b2"
    and b3: "tier_block 3 [0..<budget 3] b3"
    using search_site_log[of http website t1 t2 t3 lim w] st by blast
  have A: "\<exists>n\<le>budget k. pages_requested k (requests st) = [0..<n]"
  proof -
    consider "k = 1" | "k = 2" | "k = 3" | "k \<noteq> 1" "k \<noteq> 2" "k \<noteq> 3" by auto
    then show ?thesis
    proof cases
      case 1
      then show ?thesis
        using log block_pages_upt[OF b1] tier_block_other[OF b2, of k] tier_block_other[OF b3, of k]
        by (auto simp: pages_requested_append)
    next
      case 2
      then show ?thesis
        using log block_pages_upt[OF b2] tier_block_other[OF b1, of k] tier_block_other[OF b3, of k]
        by (auto simp: pages_requested_append)
    next
      case 3
      then show ?thesis
        using log block_pages_upt[OF b3] tier_block_other[OF b1, of k] tier_block_other[OF b2, of k]
        by (auto simp: pages_requested_append)
    next
      case 4
      then have "pages_requested k (requests st) = []"
        using log tier_block_other[OF b1, of k] tier_block_other[OF b2, of k]
          tier_block_other[OF b3, of k]
        by (simp add: pages_requested_append)
      then show ?thesis by (intro exI[of _ 0]) simp
    qed
  qed
  have B: "pages_requested k post = []"
    if dec: "requests st = pre @ (k, p, Response raw) # post" and short: "length raw < 10"
    for pre p raw post
  proof (rule short_in_append[where xs = b1 and ys = "b2 @ b3" and pre = pre and post = post
        and p = p, OF _ short b1])
    show "b1 @ b2 @ b3 = pre @ (k, p, Response raw) # post" using dec log by simp
  next
    assume "(k, p, Response raw) \<in> set b1"
    then have "k = 1" using tier_block_tags[OF b1] by fastforce
    then show "pages_requested k (b2 @ b3) = []"
      using tier_block_other[OF b2, of k] tier_block_other[OF b3, of k]
      by (simp add: pages_requested_append)
  next
    fix pre' post'
    assume d2: "b2 @ b3 = pre' @ (k, p, Response raw) # post'" and "post = post'"
    show "pages_requested k post' = []"
    proof (rule short_in_append[where post = post', OF d2 short b2])
      assume "(k, p, Response raw) \<in> set b2"
      then have "k = 2" using tier_block_tags[OF b2] by fastforce
      then show "pages_requested k b3 = []" using tier_block_other[OF b3, of k] by simp
    next
      fix pre'' post''
      assume d3: "b3 = pre'' @ (k, p, Response raw) # post''" and "post' = post''"
      have "post'' = []"
        using tier_block_short_last[OF b3[unfolded d3] short] .
      then show "pages_requested k post'' = []"
        by (simp add: pages_requested_def)
    qed
  qed
  from A B show ?thesis by blast
qed

theorem page_budget_and_short_page_stop_witness:
  "requests (final_state (search_site (demo_http pages_10_10_3) ''example.com'' (only_and ''a'')
       (only_and ''b'') (only_and []) False ()))
     = [(1, 0, Response ten_hits), (1, 1, Response ten_hits)]
       @ (1, 2, Response (take 3 ten_hits)) # [(2, 0, Response [])]
   \<and> length (take 3 ten_hits) < 10
   \<and> pages_requested 1 [(2, 0, Response [])] = []
   \<and> pages_requested 1 (requests (final_state (search_site (demo_http pages_10_10_3)
       ''example.com'' (only_and ''a'') (only_and ''b'') (only_and []) False ()))) = [0, 1, 2]
   \<and> length (pages_requested 1 (requests (final_state (search_site (demo_http pages_10_10_3)
       ''example.com'' (only_and ''a'') (only_and ''b'') (only_and []) False ())))) \<le> budget 1"
proof -
  let ?st = "final_state (search_site (demo_http pages_10_10_3) ''example.com'' (only_and ''a'')
       (only_and ''b'') (only_and []) False ())"
  have log: "requests ?st = [(1, 0, Response ten_hits), (1, 1, Response ten_hits)]
       @ (1, 2, Response (take 3 ten_hits)) # [(2, 0, Response [])]"
    by code_simp
  have short: "length (take 3 ten_hits) < 10"
    by code_simp
  have pages: "pages_requested 1 (requests ?st) = [0, 1, 2]"
    by code_simp
  note run = page_budget_and_short_page_stop[OF refl, where k = 1
      and http = "demo_http pages_10_10_3" and website = "''example.com''"
      and ?t1.0 = "only_and ''a''" and ?t2.0 = "only_and ''b''" and ?t3.0 = "only_and []"
      and lim = False and w = "()"]
  from run obtain n where n: "n \<le> budget 1" "pages_requested 1 (requests ?st) = [0..<n]"
    by blast
  then have bound: "length (pages_requested 1 (requests ?st)) \<le> budget 1"
    by simp
  from run log short have stop: "pages_requested 1 [(2, 0, Response [])] = []"
    by blast
  from log short stop pages bound show ?thesis by blast
qed

end
